theory Spec2Isabelle
  imports Main
begin

section \<open>Field types and the cache (internal/cache/cache.go)\<close>

text \<open>
  The enumeration \<open>FieldType\<close> keeps the order of the Go constants
  (\<open>FieldTypeUnknown = iota\<close>, then String, Integer, Float).
\<close>

datatype FieldType = FieldTypeUnknown | FieldTypeString | FieldTypeInteger | FieldTypeFloat

fun fieldTypeString :: "FieldType \<Rightarrow> string" where
  "fieldTypeString FieldTypeString = ''FIELD_TYPE_STRING''"
| "fieldTypeString FieldTypeInteger = ''FIELD_TYPE_INTEGER''"
| "fieldTypeString FieldTypeFloat = ''FIELD_TYPE_FLOAT''"
| "fieldTypeString FieldTypeUnknown = ''FIELD_TYPE_UNKNOWN''"

record DataSetCache =
  FieldNames :: "string list"
  FieldTypes :: "FieldType list"
  FieldData :: "string list list"

text \<open>
  \<open>New\<close>: the zero value of the struct, with an empty row store (the capacity hint of
  1000 is not observable).
\<close>

definition New :: DataSetCache where
  "New = \<lparr>FieldNames = [], FieldTypes = [], FieldData = []\<rparr>"

section \<open>The two standard-library parsers used by the probe\<close>

text \<open>
  \<open>inferProbableTypeFromString\<close> calls \<open>strconv.ParseInt(s, 10, 64)\<close> and
  \<open>strconv.ParseFloat(s, 10)\<close> and looks only at whether they return an error. Both
  belong to the Go standard library, not to this repository; they are modelled here
  after the library's algorithm for the arguments the probe passes (base 10, 64 bits).
  Strings are byte strings, as in Go.
\<close>

datatype NumError = ErrSyntax | ErrRange

definition is_digit :: "char \<Rightarrow> bool" where
  "is_digit c = (48 \<le> (of_char c :: nat) \<and> (of_char c :: nat) \<le> 57)"

definition digit_val :: "char \<Rightarrow> nat" where
  "digit_val c = (of_char c :: nat) - 48"

text \<open>\<open>lower(c) = c | ('x' - 'X')\<close>: sets bit 5 of the byte.\<close>

fun lower :: "char \<Rightarrow> char" where
  "lower (Char b0 b1 b2 b3 b4 b5 b6 b7) = Char b0 b1 b2 b3 b4 True b6 b7"

definition maxUint64 :: nat where
  "maxUint64 = 2 ^ 64 - 1"

text \<open>
  The digit loop of \<open>ParseUint\<close> for base 10 and bit size 64. \<open>n\<close> is a \<open>uint64\<close>;
  its wrap-around is written out. The cutoff is \<open>maxUint64/10 + 1\<close>. On overflow the
  function returns at once with \<open>maxVal\<close> and a range error, before looking at the
  remaining bytes.
\<close>

fun ParseUint_loop :: "nat \<Rightarrow> string \<Rightarrow> nat \<times> NumError option" where
  "ParseUint_loop n [] = (n, None)"
| "ParseUint_loop n (c # cs) =
     (if is_digit c \<or> (97 \<le> (of_char (lower c) :: nat) \<and> (of_char (lower c) :: nat) \<le> 122) then
        (let d = (if is_digit c then digit_val c else (of_char (lower c) :: nat) - 97 + 10) in
         if d \<ge> 10 then (0, Some ErrSyntax)
         else if n \<ge> maxUint64 div 10 + 1 then (maxUint64, Some ErrRange)
         else
           (let n' = (n * 10) mod 2 ^ 64;
                n1 = (n' + d) mod 2 ^ 64
            in if n1 < n' \<or> n1 > maxUint64 then (maxUint64, Some ErrRange)
               else ParseUint_loop n1 cs))
      else (0, Some ErrSyntax))"

definition ParseUint :: "string \<Rightarrow> nat \<times> NumError option" where
  "ParseUint s = (if s = [] then (0, Some ErrSyntax) else ParseUint_loop 0 s)"

text \<open>
  \<open>ParseInt(s, 10, 64)\<close>: the sign is picked off, the rest goes through \<open>ParseUint\<close>,
  and the magnitude is compared with \<open>cutoff = 1 << 63\<close>. A range error of \<open>ParseUint\<close>
  is not returned directly: its value \<open>maxVal\<close> fails the cutoff test that follows. The
  returned value is an \<open>int64\<close>: \<open>int64(un)\<close>, negated with wrap-around when the sign
  was \<open>-\<close>.
\<close>

definition int64 :: "int \<Rightarrow> int" where
  "int64 x = ((x + 2 ^ 63) mod 2 ^ 64) - 2 ^ 63"

definition ParseInt :: "string \<Rightarrow> int \<times> NumError option" where
  "ParseInt s =
     (if s = [] then (0, Some ErrSyntax)
      else
        (let neg = (hd s = CHR ''-'');
             s' = (if hd s = CHR ''+'' \<or> hd s = CHR ''-'' then tl s else s);
             (un, err) = ParseUint s'
         in if err \<noteq> None \<and> err \<noteq> Some ErrRange then (0, err)
            else
              (let cutoff = (2 ^ 63 :: nat) in
               if \<not> neg \<and> un \<ge> cutoff then (int cutoff - 1, Some ErrRange)
               else if neg \<and> un > cutoff then (- int cutoff, Some ErrRange)
               else (if neg then int64 (- int64 (int un)) else int64 (int un), None))))"

text \<open>
  \<open>ParseFloat\<close>. The probe passes bit size 10; every bit size other than 32 is read as
  64, so the target is \<open>float64\<close>. Only the error result matters to the probe, so the
  model computes whether \<open>ParseFloat\<close> returns an error and which one:
  \<^item> \<open>special\<close>: the strings \<open>inf\<close>, \<open>infinity\<close> (optionally signed) and \<open>nan\<close>, with
    ASCII letters compared case-insensitively, are accepted;
  \<^item> \<open>readFloat\<close> scans sign, optional \<open>0x\<close> prefix, mantissa digits with at most one
    point, and the exponent (\<open>e\<close> for decimal, a mandatory \<open>p\<close> for hexadecimal);
    underscores are skipped while scanning and checked afterwards by \<open>underscoreOK\<close>;
  \<^item> the whole string must have been consumed, else the error is a syntax error;
  \<^item> the conversion rounds to nearest, ties to even, and reports a range error exactly
    when the result is infinite, that is when the magnitude is at least
    \<open>2^1024 - 2^970\<close> (the largest \<open>float64\<close> plus half a unit in the last place).
  Where the library keeps the first 19 digits of the mantissa and a truncation flag, the
  model keeps the exact value of all digits: the rounded result depends on the exact value
  only. The exponent is accumulated as the library does, no longer growing once it has
  reached 10000.
\<close>

definition ascii_lower :: "char \<Rightarrow> char" where
  "ascii_lower c = (if 65 \<le> (of_char c :: nat) \<and> (of_char c :: nat) \<le> 90 then lower c else c)"

definition special :: "string \<Rightarrow> bool" where
  "special s =
     (let t = map ascii_lower s;
          u = (case t of [] \<Rightarrow> [] | c # r \<Rightarrow> if c = CHR ''+'' \<or> c = CHR ''-'' then r else t)
      in u = ''inf'' \<or> u = ''infinity'' \<or> t = ''nan'')"

definition is_hex_letter :: "char \<Rightarrow> bool" where
  "is_hex_letter c = (97 \<le> (of_char (lower c) :: nat) \<and> (of_char (lower c) :: nat) \<le> 102)"

text \<open>
  \<open>underscoreOK\<close>: an underscore must follow a digit (or the base prefix) and be followed
  by a digit. \<open>saw\<close> is the last kind of character seen: a digit, an underscore, or
  something else (\<open>^\<close> at the start, \<open>!\<close> later).
\<close>

datatype Saw = SawStart | SawDigit | SawUnderscore | SawOther

fun underscoreOK_loop :: "bool \<Rightarrow> Saw \<Rightarrow> string \<Rightarrow> bool" where
  "underscoreOK_loop hex saw [] = (saw \<noteq> SawUnderscore)"
| "underscoreOK_loop hex saw (c # cs) =
     (if is_digit c \<or> (hex \<and> is_hex_letter c) then underscoreOK_loop hex SawDigit cs
      else if c = CHR ''_'' then
        (if saw \<noteq> SawDigit then False else underscoreOK_loop hex SawUnderscore cs)
      else if saw = SawUnderscore then False
      else underscoreOK_loop hex SawOther cs)"

definition underscoreOK :: "string \<Rightarrow> bool" where
  "underscoreOK s0 =
     (let s = (if s0 \<noteq> [] \<and> (hd s0 = CHR ''-'' \<or> hd s0 = CHR ''+'') then tl s0 else s0)
      in if length s \<ge> 2 \<and> hd s = CHR ''0'' \<and>
            (lower (s ! 1) = CHR ''b'' \<or> lower (s ! 1) = CHR ''o'' \<or> lower (s ! 1) = CHR ''x'')
         then underscoreOK_loop (lower (s ! 1) = CHR ''x'') SawDigit (drop 2 s)
         else underscoreOK_loop False SawStart s)"

text \<open>The mantissa loop of \<open>readFloat\<close>; it returns its state and the unread input.\<close>

record FloatScan =
  sawdot :: bool
  sawdigits :: bool
  nd :: nat
  dp :: int
  mantissa :: nat
  underscores :: bool

fun scan_mantissa :: "bool \<Rightarrow> FloatScan \<Rightarrow> string \<Rightarrow> FloatScan \<times> string" where
  "scan_mantissa hex st [] = (st, [])"
| "scan_mantissa hex st (c # cs) =
     (if c = CHR ''_'' then scan_mantissa hex (st\<lparr>underscores := True\<rparr>) cs
      else if c = CHR ''.'' then
        (if sawdot st then (st, c # cs)
         else scan_mantissa hex (st\<lparr>sawdot := True, dp := int (nd st)\<rparr>) cs)
      else if is_digit c then
        (if c = CHR ''0'' \<and> nd st = 0
         then scan_mantissa hex (st\<lparr>sawdigits := True, dp := dp st - 1\<rparr>) cs
         else scan_mantissa hex
                (st\<lparr>sawdigits := True, nd := nd st + 1,
                    mantissa := mantissa st * (if hex then 16 else 10) + digit_val c\<rparr>) cs)
      else if hex \<and> is_hex_letter c then
        scan_mantissa hex
          (st\<lparr>sawdigits := True, nd := nd st + 1,
              mantissa := mantissa st * 16 + ((of_char (lower c) :: nat) - 97 + 10)\<rparr>) cs
      else (st, c # cs))"

text \<open>The exponent loop: digits and underscores; \<open>e\<close> stops growing at 10000.\<close>

fun scan_exponent :: "nat \<Rightarrow> bool \<Rightarrow> string \<Rightarrow> nat \<times> bool \<times> string" where
  "scan_exponent e us [] = (e, us, [])"
| "scan_exponent e us (c # cs) =
     (if c = CHR ''_'' then scan_exponent e True cs
      else if is_digit c then
        scan_exponent (if e < 10000 then e * 10 + digit_val c else e) us cs
      else (e, us, c # cs))"

text \<open>
  \<open>readFloat\<close>: \<open>None\<close> is \<open>ok = false\<close>; otherwise the result is whether the literal is
  hexadecimal, the mantissa \<open>m\<close>, the exponent \<open>x\<close> (the value is \<open>m * 10^x\<close>, or
  \<open>m * 2^x\<close> when hexadecimal) and the number of bytes consumed.
\<close>

definition readFloat :: "string \<Rightarrow> (bool \<times> nat \<times> int \<times> nat) option" where
  "readFloat s =
     (if s = [] then None
      else
        (let s1 = (if hd s = CHR ''+'' \<or> hd s = CHR ''-'' then tl s else s);
             hex = (2 < length s1 \<and> hd s1 = CHR ''0'' \<and> lower (s1 ! 1) = CHR ''x'');
             s2 = (if hex then drop 2 s1 else s1);
             (st, s3) = scan_mantissa hex
                          \<lparr>sawdot = False, sawdigits = False, nd = 0, dp = 0, mantissa = 0,
                           underscores = False\<rparr> s2
         in if \<not> sawdigits st then None
            else
              (let dp0 = (if sawdot st then dp st else int (nd st));
                   dp1 = (if hex then dp0 * 4 else dp0);
                   ndMant = (if hex then int (nd st) * 4 else int (nd st))
               in if s3 \<noteq> [] \<and> lower (hd s3) = (if hex then CHR ''p'' else CHR ''e'') then
                    (let s4 = tl s3 in
                     if s4 = [] then None
                     else
                       (let esign = (if hd s4 = CHR ''-'' then - 1 else (1 :: int));
                            s5 = (if hd s4 = CHR ''+'' \<or> hd s4 = CHR ''-'' then tl s4 else s4)
                        in if s5 = [] \<or> \<not> is_digit (hd s5) then None
                           else
                             (let (e, us, s6) = scan_exponent 0 (underscores st) s5;
                                  dp2 = dp1 + int e * esign;
                                  n = length s - length s6
                              in if us \<and> \<not> underscoreOK (take n s) then None
                                 else Some (hex, mantissa st,
                                            if mantissa st \<noteq> 0 then dp2 - ndMant else 0, n))))
                  else if hex then None
                  else
                    (let n = length s - length s3
                     in if underscores st \<and> \<not> underscoreOK (take n s) then None
                        else Some (hex, mantissa st,
                                   if mantissa st \<noteq> 0 then dp1 - ndMant else 0, n)))))"

text \<open>
  The conversion overflows when \<open>m * b^x \<ge> 2^1024 - 2^970\<close>, with \<open>b\<close> the base of the
  exponent; the comparison is made on integers.
\<close>

definition float64_overflow :: "bool \<Rightarrow> nat \<Rightarrow> int \<Rightarrow> bool" where
  "float64_overflow hex m x =
     (let b = (if hex then 2 else 10 :: nat);
          limit = (2 ^ 1024 - 2 ^ 970 :: nat)
      in if x \<ge> 0 then m * b ^ nat x \<ge> limit else m \<ge> limit * b ^ nat (- x))"

definition ParseFloat :: "string \<Rightarrow> NumError option" where
  "ParseFloat s =
     (if special s then None
      else
        (case readFloat s of
           None \<Rightarrow> Some ErrSyntax
         | Some (hex, m, x, n) \<Rightarrow>
             if n \<noteq> length s then Some ErrSyntax
             else if float64_overflow hex m x then Some ErrRange
             else None))"

section \<open>The per-cell probe\<close>

definition inferProbableTypeFromString :: "string \<Rightarrow> FieldType" where
  "inferProbableTypeFromString s =
     (if snd (ParseInt s) \<noteq> None then
        (if ParseFloat s \<noteq> None then FieldTypeString else FieldTypeFloat)
      else FieldTypeInteger)"

section \<open>The CSV reader as seen by Import\<close>

text \<open>
  CSV lexing is done by \<open>encoding/csv\<close>. A file is represented by what the lexer makes
  of it: the sequence of its records, each either the list of its fields or a lexical
  error (\<open>Malformed\<close>, for example an unbalanced quote); end of input is the end of the
  sequence. The file system maps a path to such a file, or to \<open>None\<close> when \<open>os.Open\<close>
  fails.

  \<open>Read\<close> adds the reader's own check: with \<open>FieldsPerRecord = 0\<close> (the value
  \<open>csv.NewReader\<close> sets) the first record fixes the number of fields, and a later record
  with another number of fields is returned with the error \<open>ErrFieldCount\<close>. Import leaves
  at the first error, so the reader's state after an error is never used.
\<close>

datatype Lexed = Fields "string list" | Malformed

type_synonym FileSystem = "string \<Rightarrow> Lexed list option"

record Reader =
  pending :: "Lexed list"
  FieldsPerRecord :: int

datatype ReadResult = Record "string list" | EOF | ReadError

definition NewReader :: "Lexed list \<Rightarrow> Reader" where
  "NewReader src = \<lparr>pending = src, FieldsPerRecord = 0\<rparr>"

definition Read :: "Reader \<Rightarrow> ReadResult \<times> Reader" where
  "Read r =
     (case pending r of
        [] \<Rightarrow> (EOF, r)
      | Malformed # rest \<Rightarrow> (ReadError, r\<lparr>pending := rest\<rparr>)
      | Fields rec # rest \<Rightarrow>
          if FieldsPerRecord r > 0 then
            (if int (length rec) \<noteq> FieldsPerRecord r then (ReadError, r\<lparr>pending := rest\<rparr>)
             else (Record rec, r\<lparr>pending := rest\<rparr>))
          else if FieldsPerRecord r = 0 then
            (Record rec, r\<lparr>pending := rest, FieldsPerRecord := int (length rec)\<rparr>)
          else (Record rec, r\<lparr>pending := rest\<rparr>))"

section \<open>Import\<close>

text \<open>
  The \<open>switch\<close> on the field's current type, for one cell: the field's next type.
\<close>

fun switchFieldType :: "FieldType \<Rightarrow> string \<Rightarrow> FieldType" where
  "switchFieldType FieldTypeUnknown stringValue = inferProbableTypeFromString stringValue"
| "switchFieldType FieldTypeString stringValue = FieldTypeString"
| "switchFieldType FieldTypeInteger stringValue = inferProbableTypeFromString stringValue"
| "switchFieldType FieldTypeFloat stringValue =
     (if inferProbableTypeFromString stringValue = FieldTypeString then FieldTypeString
      else FieldTypeFloat)"

text \<open>
  The inner loop \<open>for column, stringValue := range record\<close>, on the field types. It
  updates \<open>c.FieldTypes[column]\<close> in place; an index beyond the slice is a run-time
  panic, which leaves the updates made so far. The result is the field types and
  whether the loop completed.
\<close>

fun importRecord :: "FieldType list \<Rightarrow> nat \<Rightarrow> string list \<Rightarrow> FieldType list \<times> bool" where
  "importRecord types column [] = (types, True)"
| "importRecord types column (stringValue # rest) =
     (if column < length types then
        importRecord (types[column := switchFieldType (types ! column) stringValue])
          (Suc column) rest
      else (types, False))"

datatype ImportError = OpenError string | HeaderEOF string | ParseError string

datatype Outcome = Success | Failed ImportError | Panicked

text \<open>
  The loop over the data rows. \<open>fieldData\<close> is a copy of the record, appended to
  \<open>c.FieldData\<close> once every column has been handled.
\<close>

function importRows :: "string \<Rightarrow> Reader \<Rightarrow> DataSetCache \<Rightarrow> Outcome \<times> DataSetCache" where
  "importRows URI r c =
     (case Read r of
        (EOF, r') \<Rightarrow> (Success, c)
      | (ReadError, r') \<Rightarrow> (Failed (ParseError URI), c)
      | (Record record, r') \<Rightarrow>
          (case importRecord (FieldTypes c) 0 record of
             (types, False) \<Rightarrow> (Panicked, c\<lparr>FieldTypes := types\<rparr>)
           | (types, True) \<Rightarrow>
               importRows URI r' (c\<lparr>FieldTypes := types, FieldData := FieldData c @ [record]\<rparr>)))"
  by pat_completeness auto
termination
  by (relation "measure (\<lambda>(URI, r, c). length (pending r))")
     (auto simp: Read_def split: list.splits Lexed.splits if_splits)

text \<open>
  \<open>Import\<close>: open, read the header, seed every field type with Integer, then the data
  rows. The log lines are not modelled; the closing loop that prints
  \<open>c.FieldTypes[i]\<close> for each field name stays in range because both slices have the
  same length.
\<close>

definition Import :: "FileSystem \<Rightarrow> DataSetCache \<Rightarrow> string \<Rightarrow> Outcome \<times> DataSetCache" where
  "Import fs c URI =
     (case fs URI of
        None \<Rightarrow> (Failed (OpenError URI), c)
      | Some file \<Rightarrow>
          (case Read (NewReader file) of
             (EOF, r) \<Rightarrow> (Failed (HeaderEOF URI), c)
           | (ReadError, r) \<Rightarrow> (Failed (ParseError URI), c)
           | (Record record, r) \<Rightarrow>
               (let c1 = c\<lparr>FieldNames := record\<rparr>;
                    c2 = c1\<lparr>FieldTypes := replicate (length (FieldNames c1)) FieldTypeInteger\<rparr>
                in importRows URI r c2)))"

section \<open>Notions used to state the properties\<close>

text \<open>
  The strictness order Integer < Float < String; \<open>Unknown\<close>, the sentinel that precedes
  every observation, is placed below Integer. \<open>widen\<close> is the join of two types.
\<close>

fun strictness :: "FieldType \<Rightarrow> nat" where
  "strictness FieldTypeUnknown = 0"
| "strictness FieldTypeInteger = 1"
| "strictness FieldTypeFloat = 2"
| "strictness FieldTypeString = 3"

definition widen :: "FieldType \<Rightarrow> FieldType \<Rightarrow> FieldType" where
  "widen a b = (if strictness a \<le> strictness b then b else a)"

text \<open>The cells of column \<open>j\<close>, and the data rows of a file (its records after the header).\<close>

definition column :: "nat \<Rightarrow> string list list \<Rightarrow> string list" where
  "column j rows = map (\<lambda>row. row ! j) rows"

fun fieldsOf :: "Lexed list \<Rightarrow> string list list" where
  "fieldsOf [] = []"
| "fieldsOf (Fields f # rest) = f # fieldsOf rest"
| "fieldsOf (Malformed # rest) = fieldsOf rest"

definition dataRows :: "Lexed list \<Rightarrow> string list list" where
  "dataRows file = fieldsOf (tl file)"

text \<open>
  What the row loop does with the records that follow a header of \<open>n\<close> fields: the rows
  it appends are the longest run of well-formed records of \<open>n\<close> fields, and it ends
  with success at the end of input, with a parse error at a malformed record or at a
  record with another number of fields. (Only after a header of no fields, which the
  lexer never produces, would a record with fields get past the reader and index beyond
  the field types.)
\<close>

fun acceptedRows :: "nat \<Rightarrow> Lexed list \<Rightarrow> string list list" where
  "acceptedRows n [] = []"
| "acceptedRows n (Malformed # rest) = []"
| "acceptedRows n (Fields f # rest) = (if length f = n then f # acceptedRows n rest else [])"

fun loopOutcome :: "string \<Rightarrow> nat \<Rightarrow> Lexed list \<Rightarrow> Outcome" where
  "loopOutcome URI n [] = Success"
| "loopOutcome URI n (Malformed # rest) = Failed (ParseError URI)"
| "loopOutcome URI n (Fields f # rest) =
     (if length f = n then loopOutcome URI n rest
      else if n = 0 then Panicked
      else Failed (ParseError URI))"

text \<open>
  A base-10 integer literal: an optional sign and at least one decimal digit; its value;
  the signed 64-bit range.
\<close>

definition unsignedPart :: "string \<Rightarrow> string" where
  "unsignedPart s = (if s \<noteq> [] \<and> (hd s = CHR ''+'' \<or> hd s = CHR ''-'') then tl s else s)"

definition decimalValue :: "string \<Rightarrow> nat" where
  "decimalValue ds = foldl (\<lambda>n c. n * 10 + digit_val c) 0 ds"

definition isIntegerLiteral :: "string \<Rightarrow> bool" where
  "isIntegerLiteral s = (unsignedPart s \<noteq> [] \<and> list_all is_digit (unsignedPart s))"

definition literalValue :: "string \<Rightarrow> int" where
  "literalValue s =
     (if s \<noteq> [] \<and> hd s = CHR ''-'' then - int (decimalValue (unsignedPart s))
      else int (decimalValue (unsignedPart s)))"

definition fitsInt64 :: "int \<Rightarrow> bool" where
  "fitsInt64 v = (- (2 ^ 63) \<le> v \<and> v \<le> 2 ^ 63 - 1)"

text \<open>
  The invariant of the data model: as many field types as field names, and every stored
  row as long as the header.
\<close>

definition cacheInvariant :: "DataSetCache \<Rightarrow> bool" where
  "cacheInvariant c =
     (length (FieldNames c) = length (FieldTypes c)
      \<and> list_all (\<lambda>row. length row = length (FieldNames c)) (FieldData c))"

text \<open>A small file system used to run Import on concrete files.\<close>

definition exampleFS :: FileSystem where
  "exampleFS URI =
     (if URI = ''sales.csv'' then
        Some [Fields [''id'', ''price'', ''name''],
              Fields [''1'', ''9.99'', ''apple''],
              Fields [''2'', ''10'', ''banana'']]
      else if URI = ''broken.csv'' then
        Some [Fields [''a'', ''b''], Fields [''1'', ''2''], Fields [''3'', ''x''], Malformed,
              Fields [''5'', ''6'']]
      else if URI = ''header.csv'' then Some [Fields [''a'']]
      else if URI = ''empty.csv'' then Some []
      else if URI = ''one.csv'' then Some [Fields [''x''], Fields [''5'']]
      else None)"

section \<open>ParseInt accepts exactly the integer literals in the 64-bit range\<close>

lemma is_digit_lower: "is_digit c \<Longrightarrow> lower c = c"
  by (cases c) (auto simp: is_digit_def of_bool_def split: if_splits)

lemma digit_val_less: "is_digit c \<Longrightarrow> digit_val c < 10"
  by (auto simp: is_digit_def digit_val_def)

lemma foldl_decimal:
  "foldl (\<lambda>n c. n * 10 + digit_val c) a ds = a * 10 ^ length ds + decimalValue ds"
proof (induction ds arbitrary: a)
  case Nil
  show ?case by (simp add: decimalValue_def)
next
  case (Cons c cs)
  have "foldl (\<lambda>n c. n * 10 + digit_val c) a (c # cs)
        = (a * 10 + digit_val c) * 10 ^ length cs + decimalValue cs"
    by (simp add: Cons.IH)
  moreover have "decimalValue (c # cs) = digit_val c * 10 ^ length cs + decimalValue cs"
    by (simp add: decimalValue_def Cons.IH [of "digit_val c"])
  ultimately show ?case by (simp add: algebra_simps)
qed

lemma decimalValue_Cons:
  "decimalValue (c # cs) = digit_val c * 10 ^ length cs + decimalValue cs"
  using foldl_decimal [of "digit_val c" cs] by (simp add: decimalValue_def)

lemma ParseUint_loop_digits:
  assumes "list_all is_digit ds" and "n < 2 ^ 64"
  shows "ParseUint_loop n ds =
           (if n * 10 ^ length ds + decimalValue ds \<le> maxUint64
            then (n * 10 ^ length ds + decimalValue ds, None)
            else (maxUint64, Some ErrRange))"
  using assms
proof (induction ds arbitrary: n)
  case Nil
  then show ?case by (simp add: decimalValue_def maxUint64_def)
next
  case (Cons c cs)
  then have dig: "is_digit c" and rest: "list_all is_digit cs" by simp_all
  let ?d = "digit_val c"
  let ?total = "n * 10 ^ length (c # cs) + decimalValue (c # cs)"
  have d: "?d < 10" using dig by (rule digit_val_less)
  have total: "?total = (n * 10 + ?d) * 10 ^ length cs + decimalValue cs"
    by (simp add: decimalValue_Cons algebra_simps)
  have ge: "n * 10 + ?d \<le> ?total"
  proof -
    have "n * 10 + ?d \<le> (n * 10 + ?d) * 10 ^ length cs"
      by simp
    with total show ?thesis by linarith
  qed
  show ?case
  proof (cases "n \<ge> maxUint64 div 10 + 1")
    case True
    then have "n * 10 > maxUint64" by (simp add: maxUint64_def)
    then have "?total > maxUint64" using ge by linarith
    then show ?thesis using True dig d by (simp add: Let_def)
  next
    case small: False
    then have n10: "n * 10 < 2 ^ 64" by (simp add: maxUint64_def)
    show ?thesis
    proof (cases "n * 10 + ?d < 2 ^ 64")
      case True
      then have "ParseUint_loop n (c # cs) = ParseUint_loop (n * 10 + ?d) cs"
        using small dig d n10 by (simp add: Let_def maxUint64_def)
      then show ?thesis using Cons.IH [OF rest True] total by simp
    next
      case False
      then have wrap: "(n * 10 + ?d) mod 2 ^ 64 = n * 10 + ?d - 2 ^ 64"
        using n10 d by (simp add: mod_if)
      have "n * 10 + ?d - 2 ^ 64 < n * 10" using False d by simp
      then have "ParseUint_loop n (c # cs) = (maxUint64, Some ErrRange)"
        using small dig d n10 wrap by (simp add: Let_def)
      moreover have "?total > maxUint64" using False ge by (simp add: maxUint64_def)
      ultimately show ?thesis by simp
    qed
  qed
qed

lemma ParseUint_loop_step:
  "ParseUint_loop n (c # cs) =
     (if is_digit c then
        (if n \<ge> maxUint64 div 10 + 1 \<or> (n * 10 mod 2 ^ 64 + digit_val c) mod 2 ^ 64 < n * 10 mod 2 ^ 64
         then (maxUint64, Some ErrRange)
         else ParseUint_loop ((n * 10 mod 2 ^ 64 + digit_val c) mod 2 ^ 64) cs)
      else (0, Some ErrSyntax))"
proof (cases "is_digit c")
  case True
  have "(n * 10 mod 2 ^ 64 + digit_val c) mod 2 ^ 64 < (2 ^ 64 :: nat)"
    by (rule mod_less_divisor) simp
  then have "(n * 10 mod 2 ^ 64 + digit_val c) mod 2 ^ 64 \<le> maxUint64"
    by (simp add: maxUint64_def)
  then show ?thesis using True digit_val_less [OF True] by (simp add: Let_def)
next
  case False
  then show ?thesis by (auto simp: Let_def)
qed

declare ParseUint_loop.simps(2) [simp del]

lemma ParseUint_loop_nondigit:
  "\<not> list_all is_digit ds \<Longrightarrow> snd (ParseUint_loop n ds) \<noteq> None"
proof (induction ds arbitrary: n)
  case Nil
  then show ?case by simp
next
  case (Cons c cs)
  show ?case
  proof (cases "is_digit c")
    case True
    with Cons.prems have "\<not> list_all is_digit cs" by simp
    from Cons.IH [OF this] show ?thesis using True by (simp add: ParseUint_loop_step)
  next
    case False
    then show ?thesis by (simp add: ParseUint_loop_step)
  qed
qed

lemma ParseUint_loop_range:
  "snd (ParseUint_loop n ds) = Some ErrRange \<Longrightarrow> fst (ParseUint_loop n ds) = maxUint64"
proof (induction ds arbitrary: n)
  case Nil
  then show ?case by simp
next
  case (Cons c cs)
  show ?case
  proof (cases "is_digit c \<and> \<not> (n \<ge> maxUint64 div 10 + 1 \<or>
                 (n * 10 mod 2 ^ 64 + digit_val c) mod 2 ^ 64 < n * 10 mod 2 ^ 64)")
    case True
    then have "ParseUint_loop n (c # cs)
               = ParseUint_loop ((n * 10 mod 2 ^ 64 + digit_val c) mod 2 ^ 64) cs"
      by (simp add: ParseUint_loop_step)
    with Cons show ?thesis by simp
  next
    case False
    then have "ParseUint_loop n (c # cs) = (maxUint64, Some ErrRange)
               \<or> ParseUint_loop n (c # cs) = (0, Some ErrSyntax)"
      by (auto simp: ParseUint_loop_step)
    with Cons.prems show ?thesis by auto
  qed
qed

lemma int64_id: "- (2 ^ 63) \<le> x \<Longrightarrow> x < 2 ^ 63 \<Longrightarrow> int64 x = x"
  by (simp add: int64_def)

lemma int64_neg: "v \<le> 2 ^ 63 \<Longrightarrow> int64 (- int64 (int v)) = - int v"
proof (cases "v = 2 ^ 63")
  case True
  then show ?thesis by (simp add: int64_def)
next
  case False
  assume "v \<le> 2 ^ 63"
  with False have "int v < 2 ^ 63" by simp
  then show ?thesis by (simp add: int64_id)
qed

lemma ParseInt_literal:
  assumes lit: "isIntegerLiteral s"
  shows "ParseInt s =
           (if fitsInt64 (literalValue s) then (literalValue s, None)
            else (if hd s = CHR ''-'' then - (2 ^ 63) else 2 ^ 63 - 1, Some ErrRange))"
proof -
  let ?ds = "unsignedPart s"
  let ?v = "decimalValue ?ds"
  from lit have ds: "?ds \<noteq> []" "list_all is_digit ?ds" by (simp_all add: isIntegerLiteral_def)
  then have s: "s \<noteq> []" by (auto simp: unsignedPart_def)
  have strip: "(if hd s = CHR ''+'' \<or> hd s = CHR ''-'' then tl s else s) = ?ds"
    using s by (simp add: unsignedPart_def)
  have pu: "ParseUint ?ds = (if ?v \<le> maxUint64 then (?v, None) else (maxUint64, Some ErrRange))"
    using ParseUint_loop_digits [OF ds(2), of 0] ds(1) by (simp add: ParseUint_def)
  have lv: "literalValue s = (if hd s = CHR ''-'' then - int ?v else int ?v)"
    using s by (simp add: literalValue_def)
  have unfold: "ParseInt s =
      (case ParseUint ?ds of (un, err) \<Rightarrow>
         if err \<noteq> None \<and> err \<noteq> Some ErrRange then (0, err)
         else if hd s \<noteq> CHR ''-'' \<and> un \<ge> 2 ^ 63 then (2 ^ 63 - 1, Some ErrRange)
         else if hd s = CHR ''-'' \<and> un > 2 ^ 63 then (- (2 ^ 63), Some ErrRange)
         else (if hd s = CHR ''-'' then int64 (- int64 (int un)) else int64 (int un), None))"
    using s by (simp add: ParseInt_def Let_def strip split: prod.splits)
  show ?thesis
  proof (cases "?v \<le> maxUint64")
    case False
    then have big: "int ?v > 2 ^ 64 - 1" by (simp add: maxUint64_def)
    then have "\<not> fitsInt64 (literalValue s)" by (simp add: lv fitsInt64_def)
    then show ?thesis using False pu by (simp add: unfold maxUint64_def)
  next
    case True
    then have un: "ParseUint ?ds = (?v, None)" using pu by simp
    show ?thesis
    proof (cases "hd s = CHR ''-''")
      case neg: True
      show ?thesis
      proof (cases "?v > 2 ^ 63")
        case True
        then have "\<not> fitsInt64 (literalValue s)" using neg by (simp add: lv fitsInt64_def)
        then show ?thesis using True neg by (simp add: unfold un)
      next
        case False
        then have le: "?v \<le> 2 ^ 63" by simp
        then have "fitsInt64 (literalValue s)" using neg by (simp add: lv fitsInt64_def)
        then show ?thesis using False neg int64_neg [OF le] by (simp add: unfold un lv)
      qed
    next
      case pos: False
      show ?thesis
      proof (cases "?v \<ge> 2 ^ 63")
        case True
        then have "\<not> fitsInt64 (literalValue s)" using pos by (simp add: lv fitsInt64_def)
        then show ?thesis using True pos by (simp add: unfold un)
      next
        case False
        then have lt: "int ?v < 2 ^ 63" by simp
        then have "fitsInt64 (literalValue s)" using pos by (simp add: lv fitsInt64_def)
        then show ?thesis using False pos int64_id [OF _ lt] by (simp add: unfold un lv)
      qed
    qed
  qed
qed

lemma ParseInt_not_literal:
  assumes "\<not> isIntegerLiteral s"
  shows "snd (ParseInt s) \<noteq> None"
proof (cases "s = []")
  case True
  then show ?thesis by (simp add: ParseInt_def)
next
  case s: False
  let ?ds = "unsignedPart s"
  have strip: "(if hd s = CHR ''+'' \<or> hd s = CHR ''-'' then tl s else s) = ?ds"
    using s by (simp add: unsignedPart_def)
  show ?thesis
  proof (cases "?ds = []")
    case True
    then show ?thesis using s strip by (simp add: ParseInt_def ParseUint_def Let_def)
  next
    case False
    with assms have nd: "\<not> list_all is_digit ?ds" by (simp add: isIntegerLiteral_def)
    obtain un err where r: "ParseUint_loop 0 ?ds = (un, err)" by (cases "ParseUint_loop 0 ?ds")
    from ParseUint_loop_nondigit [OF nd, of 0] r have err: "err \<noteq> None" by simp
    show ?thesis
    proof (cases "err = Some ErrRange")
      case True
      with ParseUint_loop_range [of 0 ?ds] r have "un = maxUint64" by simp
      then show ?thesis
        using s strip False r True
        by (auto simp: ParseInt_def ParseUint_def Let_def maxUint64_def)
    next
      case False
      then show ?thesis
        using s strip \<open>?ds \<noteq> []\<close> r err
        by (auto simp: ParseInt_def ParseUint_def Let_def)
    qed
  qed
qed

lemma ParseInt_ok_iff:
  "snd (ParseInt s) = None \<longleftrightarrow> isIntegerLiteral s \<and> fitsInt64 (literalValue s)"
  using ParseInt_literal [of s] ParseInt_not_literal [of s] by (cases "isIntegerLiteral s") auto

section \<open>ParseFloat on integer literals\<close>

lemma is_digit_plain:
  "is_digit c \<Longrightarrow> c \<noteq> CHR ''+'' \<and> c \<noteq> CHR ''-'' \<and> c \<noteq> CHR ''_'' \<and> c \<noteq> CHR ''.''
                \<and> c \<noteq> CHR ''x'' \<and> c \<noteq> CHR ''i'' \<and> c \<noteq> CHR ''n''"
  by (auto simp: is_digit_def)

lemma is_digit_ascii_lower: "is_digit c \<Longrightarrow> ascii_lower c = c"
  by (auto simp: is_digit_def ascii_lower_def)

lemma ascii_lower_sign:
  "ascii_lower c = CHR ''+'' \<longleftrightarrow> c = CHR ''+''" "ascii_lower c = CHR ''-'' \<longleftrightarrow> c = CHR ''-''"
  by (cases c; auto simp: ascii_lower_def of_bool_def split: if_splits)+

lemma digit_val_zero: "digit_val (CHR ''0'') = 0"
  by (simp add: digit_val_def)

lemma scan_mantissa_zero:
  "nd st = 0 \<Longrightarrow>
   scan_mantissa False st (CHR ''0'' # cs) =
     scan_mantissa False (st\<lparr>sawdigits := True, dp := dp st - 1\<rparr>) cs"
  by (simp add: is_digit_def)

lemma scan_mantissa_digit:
  "is_digit c \<Longrightarrow> \<not> (c = CHR ''0'' \<and> nd st = 0) \<Longrightarrow>
   scan_mantissa False st (c # cs) =
     scan_mantissa False
       (st\<lparr>sawdigits := True, nd := nd st + 1, mantissa := mantissa st * 10 + digit_val c\<rparr>) cs"
  using is_digit_plain [of c] by (cases "c = CHR ''0''") simp_all

declare scan_mantissa.simps(2) [simp del]

lemma scan_mantissa_digits:
  assumes "list_all is_digit ds" and "\<not> sawdot st" and "nd st = 0 \<longrightarrow> mantissa st = 0"
  shows "snd (scan_mantissa False st ds) = []
         \<and> \<not> sawdot (fst (scan_mantissa False st ds))
         \<and> underscores (fst (scan_mantissa False st ds)) = underscores st
         \<and> sawdigits (fst (scan_mantissa False st ds)) = (sawdigits st \<or> ds \<noteq> [])
         \<and> mantissa (fst (scan_mantissa False st ds)) = mantissa st * 10 ^ length ds + decimalValue ds"
  using assms
proof (induction ds arbitrary: st)
  case Nil
  then show ?case by (simp add: decimalValue_def)
next
  case (Cons c cs)
  then have dig: "is_digit c" and rest: "list_all is_digit cs" by simp_all
  show ?case
  proof (cases "c = CHR ''0'' \<and> nd st = 0")
    case True
    let ?st1 = "st\<lparr>sawdigits := True, dp := dp st - 1\<rparr>"
    have step: "scan_mantissa False st (c # cs) = scan_mantissa False ?st1 cs"
      using True by (simp add: scan_mantissa_zero)
    have m0: "mantissa st = 0" using True Cons.prems(3) by simp
    have dv: "decimalValue (c # cs) = decimalValue cs"
      using True by (simp add: decimalValue_Cons digit_val_zero)
    have "\<not> sawdot ?st1" "nd ?st1 = 0 \<longrightarrow> mantissa ?st1 = 0"
      using Cons.prems by simp_all
    from Cons.IH [OF rest this] show ?thesis
      unfolding step dv using m0 by simp
  next
    case False
    let ?st1 = "st\<lparr>sawdigits := True, nd := nd st + 1, mantissa := mantissa st * 10 + digit_val c\<rparr>"
    have step: "scan_mantissa False st (c # cs) = scan_mantissa False ?st1 cs"
      using dig False by (rule scan_mantissa_digit)
    have "\<not> sawdot ?st1" "nd ?st1 = 0 \<longrightarrow> mantissa ?st1 = 0"
      using Cons.prems by simp_all
    from Cons.IH [OF rest this] show ?thesis
      unfolding step by (simp add: decimalValue_Cons algebra_simps)
  qed
qed

lemma special_literal:
  assumes "isIntegerLiteral s"
  shows "\<not> special s"
proof -
  let ?ds = "unsignedPart s"
  from assms have ds: "?ds \<noteq> []" "list_all is_digit ?ds" by (simp_all add: isIntegerLiteral_def)
  then obtain d rest where dr: "?ds = d # rest" "is_digit d" by (cases ?ds) auto
  from ds have s: "s \<noteq> []" by (auto simp: unsignedPart_def)
  then obtain a tail where at: "s = a # tail" by (cases s) auto
  have ld: "ascii_lower d = d" using dr(2) by (rule is_digit_ascii_lower)
  from is_digit_plain [OF dr(2)] have nd: "d \<noteq> CHR ''i''" "d \<noteq> CHR ''n''" by simp_all
  show ?thesis
  proof (cases "a = CHR ''+'' \<or> a = CHR ''-''")
    case True
    then have tail: "tail = d # rest" using dr(1) at by (simp add: unsignedPart_def)
    have la: "ascii_lower a = a" using True by (auto simp: ascii_lower_def)
    have t: "map ascii_lower s = a # d # map ascii_lower rest"
      by (simp add: at tail la ld)
    have "special s = (d # map ascii_lower rest = ''inf'' \<or> d # map ascii_lower rest = ''infinity''
                       \<or> a # d # map ascii_lower rest = ''nan'')"
      unfolding special_def t Let_def using True by (simp only: list.case if_True)
    moreover have "a \<noteq> CHR ''n''" using True by auto
    ultimately show ?thesis using nd by simp
  next
    case False
    then have ad: "a = d" and tail: "tail = rest" using dr(1) at by (simp_all add: unsignedPart_def)
    have t: "map ascii_lower s = d # map ascii_lower rest"
      by (simp add: at ad tail ld)
    have "\<not> (d = CHR ''+'' \<or> d = CHR ''-'')" using False ad by simp
    then have "special s = (d # map ascii_lower rest = ''inf'' \<or> d # map ascii_lower rest = ''infinity''
                       \<or> d # map ascii_lower rest = ''nan'')"
      unfolding special_def t Let_def by (simp only: list.case if_False)
    then show ?thesis using nd by simp
  qed
qed

lemma readFloat_literal:
  assumes "isIntegerLiteral s"
  shows "readFloat s = Some (False, decimalValue (unsignedPart s), 0, length s)"
proof -
  let ?ds = "unsignedPart s"
  let ?init = "\<lparr>sawdot = False, sawdigits = False, nd = 0, dp = 0, mantissa = 0, underscores = False\<rparr>"
  from assms have ds: "?ds \<noteq> []" "list_all is_digit ?ds" by (simp_all add: isIntegerLiteral_def)
  then have s: "s \<noteq> []" by (auto simp: unsignedPart_def)
  have strip: "(if hd s = CHR ''+'' \<or> hd s = CHR ''-'' then tl s else s) = ?ds"
    using s by (simp add: unsignedPart_def)
  have nohex: "(2 < length ?ds \<and> hd ?ds = CHR ''0'' \<and> lower (?ds ! Suc 0) = CHR ''x'') = False"
  proof -
    have "lower (?ds ! Suc 0) \<noteq> CHR ''x''" if "2 < length ?ds"
    proof -
      from that have "is_digit (?ds ! Suc 0)" using ds(2) by (simp add: list_all_length)
      then show ?thesis using is_digit_lower is_digit_plain by metis
    qed
    then show ?thesis by blast
  qed
  obtain st' s3 where scan: "scan_mantissa False ?init ?ds = (st', s3)"
    by (cases "scan_mantissa False ?init ?ds")
  from scan_mantissa_digits [OF ds(2), of ?init] scan ds(1)
  have st': "s3 = []" "\<not> sawdot st'" "\<not> underscores st'" "sawdigits st'"
    "mantissa st' = decimalValue ?ds"
    by simp_all
  show ?thesis
    using s scan st' by (simp add: readFloat_def strip Let_def nohex)
qed

lemma ParseFloat_literal:
  assumes "isIntegerLiteral s"
  shows "ParseFloat s =
           (if decimalValue (unsignedPart s) \<ge> 2 ^ 1024 - 2 ^ 970 then Some ErrRange else None)"
  using special_literal [OF assms] readFloat_literal [OF assms]
  by (simp add: ParseFloat_def float64_overflow_def)


text \<open>Evaluating the probe on concrete cells.\<close>

lemma probe_eq:
  "inferProbableTypeFromString s =
     (if isIntegerLiteral s \<and> fitsInt64 (literalValue s) then FieldTypeInteger
      else if ParseFloat s = None then FieldTypeFloat
      else FieldTypeString)"
  using ParseInt_ok_iff [of s] by (simp add: inferProbableTypeFromString_def)

lemmas literal_eval =
  isIntegerLiteral_def unsignedPart_def is_digit_def literalValue_def decimalValue_def
  digit_val_def fitsInt64_def

lemmas float_eval =
  ParseFloat_def special_def ascii_lower_def readFloat_def scan_mantissa.simps
  float64_overflow_def Let_def is_hex_letter_def

lemma probe_examples:
  "inferProbableTypeFromString ''1'' = FieldTypeInteger"
  "inferProbableTypeFromString ''2'' = FieldTypeInteger"
  "inferProbableTypeFromString ''3'' = FieldTypeInteger"
  "inferProbableTypeFromString ''5'' = FieldTypeInteger"
  "inferProbableTypeFromString ''10'' = FieldTypeInteger"
  "inferProbableTypeFromString ''9.99'' = FieldTypeFloat"
  "inferProbableTypeFromString ''x'' = FieldTypeString"
  "inferProbableTypeFromString ''apple'' = FieldTypeString"
  "inferProbableTypeFromString ''banana'' = FieldTypeString"
  by (simp_all add: probe_eq literal_eval float_eval)

section \<open>The probe\<close>

text \<open>
  C7. The probe is a function of the string alone. It returns Integer when the string is
  a base-10 integer literal (optional sign, decimal digits) whose value fits the signed
  64-bit range, which is exactly when \<open>ParseInt\<close> returns no error; otherwise Float when
  \<open>ParseFloat\<close> returns no error; otherwise String. It never returns Unknown.
\<close>

theorem probe_classification:
  "inferProbableTypeFromString s =
     (if isIntegerLiteral s \<and> fitsInt64 (literalValue s) then FieldTypeInteger
      else if ParseFloat s = None then FieldTypeFloat
      else FieldTypeString)
   \<and> (snd (ParseInt s) = None \<longleftrightarrow> isIntegerLiteral s \<and> fitsInt64 (literalValue s))
   \<and> inferProbableTypeFromString s \<noteq> FieldTypeUnknown"
  using ParseInt_ok_iff [of s] by (simp add: inferProbableTypeFromString_def)

theorem probe_classification_witness:
  "inferProbableTypeFromString ''-42'' = FieldTypeInteger
   \<and> isIntegerLiteral ''-42'' \<and> fitsInt64 (literalValue ''-42'')
   \<and> snd (ParseInt ''-42'') = None"
  using probe_classification [of "''-42''"]
  by (simp add: isIntegerLiteral_def unsignedPart_def is_digit_def literalValue_def
      decimalValue_def digit_val_def fitsInt64_def)

text \<open>
  C9. An integer literal whose value is outside the signed 64-bit range, and whose
  magnitude is below \<open>2^1024 - 2^970\<close> (so that it rounds to a finite \<open>float64\<close>), is
  classified as Float: \<open>ParseInt\<close> returns a range error and \<open>ParseFloat\<close> accepts it.
\<close>

theorem big_integer_literal_is_Float:
  assumes "isIntegerLiteral s"
    and "\<not> fitsInt64 (literalValue s)"
    and "\<bar>literalValue s\<bar> < 2 ^ 1024 - 2 ^ 970"
  shows "inferProbableTypeFromString s = FieldTypeFloat"
proof -
  have "\<bar>literalValue s\<bar> = int (decimalValue (unsignedPart s))"
    by (simp add: literalValue_def)
  with assms(3) have "int (decimalValue (unsignedPart s)) < 2 ^ 1024 - 2 ^ 970" by simp
  then have "decimalValue (unsignedPart s) < 2 ^ 1024 - 2 ^ 970"
    by simp
  then have "ParseFloat s = None" using ParseFloat_literal [OF assms(1)] by simp
  moreover have "snd (ParseInt s) \<noteq> None"
    using ParseInt_ok_iff [of s] assms(2) by simp
  ultimately show ?thesis by (simp add: inferProbableTypeFromString_def)
qed

theorem big_integer_literal_is_Float_witness:
  "isIntegerLiteral ''9223372036854775808''
   \<and> \<not> fitsInt64 (literalValue ''9223372036854775808'')
   \<and> \<bar>literalValue ''9223372036854775808''\<bar> < 2 ^ 1024 - 2 ^ 970
   \<and> inferProbableTypeFromString ''9223372036854775808'' = FieldTypeFloat"
proof -
  have a: "isIntegerLiteral ''9223372036854775808''" by (simp add: literal_eval)
  have b: "\<not> fitsInt64 (literalValue ''9223372036854775808'')" by (simp add: literal_eval)
  have c: "\<bar>literalValue ''9223372036854775808''\<bar> < 2 ^ 1024 - 2 ^ 970"
    by (simp add: literal_eval)
  from big_integer_literal_is_Float [OF a b c] a b c show ?thesis by simp
qed

section \<open>What Import computes\<close>

lemma importRecord_length: "length (fst (importRecord types k row)) = length types"
  by (induction row arbitrary: types k) auto

lemma importRecord_completes:
  "k + length row \<le> length types \<Longrightarrow> snd (importRecord types k row)"
  by (induction row arbitrary: types k) auto

lemma importRecord_nth:
  assumes "k + length row \<le> length types" and "j < length types"
  shows "fst (importRecord types k row) ! j =
           (if k \<le> j \<and> j < k + length row
            then switchFieldType (types ! j) (row ! (j - k)) else types ! j)"
  using assms
proof (induction row arbitrary: types k)
  case Nil
  then show ?case by auto
next
  case (Cons v rest)
  let ?types' = "types[k := switchFieldType (types ! k) v]"
  from Cons.prems have k: "k < length types" by simp
  have step: "importRecord types k (v # rest) = importRecord ?types' (Suc k) rest"
    using k by simp
  have IH: "fst (importRecord ?types' (Suc k) rest) ! j =
              (if Suc k \<le> j \<and> j < Suc k + length rest
               then switchFieldType (?types' ! j) (rest ! (j - Suc k)) else ?types' ! j)"
    using Cons.prems by (intro Cons.IH) simp_all
  have eq: "fst (importRecord types k (v # rest)) ! j =
              (if Suc k \<le> j \<and> j < Suc k + length rest
               then switchFieldType (?types' ! j) (rest ! (j - Suc k)) else ?types' ! j)"
    by (simp only: step IH)
  show ?case
  proof (cases "j = k")
    case True
    show ?thesis unfolding eq using True k by simp
  next
    case False
    show ?thesis unfolding eq using False k Cons.prems(2)
      by (auto simp: nth_Cons' Suc_diff_Suc)
  qed
qed

lemma importRecord_whole:
  assumes "length row = length types"
  shows "importRecord types 0 row = (map2 switchFieldType types row, True)"
proof -
  have "fst (importRecord types 0 row) = map2 switchFieldType types row"
    using assms by (intro nth_equalityI) (simp_all add: importRecord_length importRecord_nth)
  moreover have "snd (importRecord types 0 row)"
    using assms by (simp add: importRecord_completes)
  ultimately show ?thesis by (simp add: prod_eq_iff)
qed

lemma importRecord_panics: "importRecord [] 0 (v # rest) = ([], False)"
  by simp

lemma Read_fields:
  assumes "pending r = Fields f # rest" and "FieldsPerRecord r = int n"
  shows "Read r =
           (if length f = n then (Record f, r\<lparr>pending := rest\<rparr>)
            else if n = 0 then (Record f, r\<lparr>pending := rest, FieldsPerRecord := int (length f)\<rparr>)
            else (ReadError, r\<lparr>pending := rest\<rparr>))"
  using assms by (auto simp: Read_def)

declare importRows.simps [simp del]

lemma importRows_characterised:
  assumes "FieldsPerRecord r = int n" and "length (FieldTypes c) = n"
  shows "importRows URI r c =
           (loopOutcome URI n (pending r),
            c\<lparr>FieldTypes := foldl (map2 switchFieldType) (FieldTypes c) (acceptedRows n (pending r)),
              FieldData := FieldData c @ acceptedRows n (pending r)\<rparr>)"
  using assms
proof (induction p \<equiv> "pending r" arbitrary: r c)
  case Nil
  then have "Read r = (EOF, r)" by (simp add: Read_def)
  then show ?case using Nil by (subst importRows.simps) simp
next
  case (Cons x rest)
  show ?case
  proof (cases x)
    case Malformed
    with Cons.hyps(2) have p: "pending r = Malformed # rest" by simp
    then have "Read r = (ReadError, r\<lparr>pending := rest\<rparr>)" by (simp add: Read_def)
    then show ?thesis using p by (subst importRows.simps) simp
  next
    case (Fields f)
    with Cons.hyps(2) have p: "pending r = Fields f # rest" by simp
    note rd = Read_fields [OF p Cons.prems(1)]
    show ?thesis
    proof (cases "length f = n")
      case True
      let ?r' = "r\<lparr>pending := rest\<rparr>"
      let ?c' = "c\<lparr>FieldTypes := map2 switchFieldType (FieldTypes c) f,
                    FieldData := FieldData c @ [f]\<rparr>"
      have "importRows URI r c = importRows URI ?r' ?c'"
        using True rd Cons.prems(2) by (subst importRows.simps) (simp add: importRecord_whole)
      also have "\<dots> = (loopOutcome URI n (pending ?r'),
            ?c'\<lparr>FieldTypes := foldl (map2 switchFieldType) (FieldTypes ?c') (acceptedRows n (pending ?r')),
              FieldData := FieldData ?c' @ acceptedRows n (pending ?r')\<rparr>)"
        using Cons.prems True by (intro Cons.hyps(1)) simp_all
      finally show ?thesis using True p by simp
    next
      case False
      show ?thesis
      proof (cases "n = 0")
        case True
        with False obtain v vs where f: "f = v # vs" by (cases f) auto
        have "FieldTypes c = []" using True Cons.prems(2) by simp
        then show ?thesis using True False rd p f
          by (subst importRows.simps) simp
      next
        case nz: False
        then show ?thesis using False rd p by (subst importRows.simps) simp
      qed
    qed
  qed
qed


lemma Import_open_fails: "fs URI = None \<Longrightarrow> Import fs c URI = (Failed (OpenError URI), c)"
  by (simp add: Import_def)

lemma Import_empty_file: "fs URI = Some [] \<Longrightarrow> Import fs c URI = (Failed (HeaderEOF URI), c)"
  by (simp add: Import_def Read_def NewReader_def)

lemma Import_bad_header:
  "fs URI = Some (Malformed # rest) \<Longrightarrow> Import fs c URI = (Failed (ParseError URI), c)"
  by (simp add: Import_def Read_def NewReader_def)

lemma Import_header:
  assumes "fs URI = Some (Fields h # rest)"
  shows "Import fs c URI =
           (loopOutcome URI (length h) rest,
            c\<lparr>FieldNames := h,
              FieldTypes := foldl (map2 switchFieldType) (replicate (length h) FieldTypeInteger)
                              (acceptedRows (length h) rest),
              FieldData := FieldData c @ acceptedRows (length h) rest\<rparr>)"
proof -
  let ?r = "\<lparr>pending = rest, FieldsPerRecord = int (length h)\<rparr>"
  let ?c2 = "c\<lparr>FieldNames := h, FieldTypes := replicate (length h) FieldTypeInteger\<rparr>"
  have "Read (NewReader (Fields h # rest)) = (Record h, ?r)"
    by (simp add: Read_def NewReader_def)
  then have "Import fs c URI = importRows URI ?r ?c2"
    using assms by (simp add: Import_def Let_def)
  also have "\<dots> = (loopOutcome URI (length h) (pending ?r),
            ?c2\<lparr>FieldTypes := foldl (map2 switchFieldType) (FieldTypes ?c2)
                                 (acceptedRows (length h) (pending ?r)),
              FieldData := FieldData ?c2 @ acceptedRows (length h) (pending ?r)\<rparr>)"
    by (rule importRows_characterised) simp_all
  finally show ?thesis by simp
qed

lemma acceptedRows_length: "row \<in> set (acceptedRows n rest) \<Longrightarrow> length row = n"
  by (induction n rest rule: acceptedRows.induct) (auto split: if_splits)

lemma loopOutcome_Success:
  "loopOutcome URI n rest = Success \<Longrightarrow> map Fields (acceptedRows n rest) = rest"
  by (induction URI n rest rule: loopOutcome.induct) (auto split: if_splits)

lemma fieldsOf_map_Fields: "fieldsOf (map Fields rows) = rows"
  by (induction rows) auto

lemma acceptedRows_map_Fields:
  "\<forall>row\<in>set rows. length row = n \<Longrightarrow> acceptedRows n (map Fields rows @ rest) = rows @ acceptedRows n rest"
  by (induction rows) auto

lemma loopOutcome_map_Fields:
  "\<forall>row\<in>set rows. length row = n \<Longrightarrow> loopOutcome URI n (map Fields rows @ rest) = loopOutcome URI n rest"
  by (induction rows) auto

lemma foldl_map2_length:
  "\<forall>row\<in>set rows. length row = length types \<Longrightarrow>
   length (foldl (map2 switchFieldType) types rows) = length types"
  by (induction rows arbitrary: types) auto

lemma foldl_map2_nth:
  assumes "\<forall>row\<in>set rows. length row = length types" and "j < length types"
  shows "foldl (map2 switchFieldType) types rows ! j = foldl switchFieldType (types ! j) (column j rows)"
  using assms by (induction rows arbitrary: types) (auto simp: column_def)

lemma probe_not_Unknown: "inferProbableTypeFromString s \<noteq> FieldTypeUnknown"
  by (simp add: inferProbableTypeFromString_def)

lemma switchFieldType_widen:
  "switchFieldType t v = widen t (inferProbableTypeFromString v)"
  using probe_not_Unknown [of v]
  by (cases t; cases "inferProbableTypeFromString v") (simp_all add: widen_def)

lemma foldl_switch_widen:
  "foldl switchFieldType t vs = foldl widen t (map inferProbableTypeFromString vs)"
  by (induction vs arbitrary: t) (simp_all add: switchFieldType_widen)

lemma foldl_widen_upper:
  "strictness t \<le> strictness (foldl widen t ps) \<and>
   (\<forall>p\<in>set ps. strictness p \<le> strictness (foldl widen t ps))"
proof (induction ps arbitrary: t)
  case Nil
  show ?case by simp
next
  case (Cons p ps)
  have "strictness t \<le> strictness (widen t p)" "strictness p \<le> strictness (widen t p)"
    by (simp_all add: widen_def)
  with Cons [of "widen t p"] show ?case by (auto intro: order_trans)
qed

lemma foldl_widen_mem: "foldl widen t ps = t \<or> foldl widen t ps \<in> set ps"
proof (induction ps arbitrary: t)
  case Nil
  show ?case by simp
next
  case (Cons p ps)
  have "widen t p = t \<or> widen t p = p" by (simp add: widen_def)
  with Cons [of "widen t p"] show ?case by auto
qed


text \<open>Import on the example files.\<close>

lemma run_sales:
  "Import exampleFS New ''sales.csv'' =
     (Success, \<lparr>FieldNames = [''id'', ''price'', ''name''],
                FieldTypes = [FieldTypeInteger, FieldTypeFloat, FieldTypeString],
                FieldData = [[''1'', ''9.99'', ''apple''], [''2'', ''10'', ''banana'']]\<rparr>)"
  by (simp add: Import_header [of exampleFS "''sales.csv''"] exampleFS_def New_def probe_examples)

lemma run_broken:
  "Import exampleFS New ''broken.csv'' =
     (Failed (ParseError ''broken.csv''),
      \<lparr>FieldNames = [''a'', ''b''],
       FieldTypes = [FieldTypeInteger, FieldTypeString],
       FieldData = [[''1'', ''2''], [''3'', ''x'']]\<rparr>)"
  by (simp add: Import_header [of exampleFS "''broken.csv''"] exampleFS_def New_def probe_examples)

lemma run_one_after_sales:
  "Import exampleFS
     \<lparr>FieldNames = [''id'', ''price'', ''name''],
      FieldTypes = [FieldTypeInteger, FieldTypeFloat, FieldTypeString],
      FieldData = [[''1'', ''9.99'', ''apple''], [''2'', ''10'', ''banana'']]\<rparr> ''one.csv'' =
     (Success, \<lparr>FieldNames = [''x''],
                FieldTypes = [FieldTypeInteger],
                FieldData = [[''1'', ''9.99'', ''apple''], [''2'', ''10'', ''banana''], [''5'']]\<rparr>)"
  by (simp add: Import_header [of exampleFS "''one.csv''"] exampleFS_def probe_examples)

lemma run_loop:
  "importRows ''f'' \<lparr>pending = [Fields [''1'', ''9.99'']], FieldsPerRecord = 2\<rparr>
     \<lparr>FieldNames = [''a'', ''b''], FieldTypes = [FieldTypeString, FieldTypeInteger], FieldData = []\<rparr>
   = (Success, \<lparr>FieldNames = [''a'', ''b''], FieldTypes = [FieldTypeString, FieldTypeFloat],
                 FieldData = [[''1'', ''9.99'']]\<rparr>)"
  by (simp add: importRows_characterised [where n = 2] probe_examples)

text \<open>The shape of a file on which Import succeeds, and the cases of Import.\<close>

lemma Import_Success_shape:
  assumes "fs URI = Some src" and "Import fs c URI = (Success, c')"
  shows "\<exists>h rest. src = Fields h # rest \<and> loopOutcome URI (length h) rest = Success
           \<and> map Fields (acceptedRows (length h) rest) = rest
           \<and> dataRows src = acceptedRows (length h) rest"
proof -
  from assms obtain h rest where shape: "src = Fields h # rest"
    by (cases src rule: fieldsOf.cases)
       (auto simp: Import_open_fails Import_empty_file Import_bad_header)
  from Import_header [of fs URI h rest c] assms shape
  have ok: "loopOutcome URI (length h) rest = Success" by simp
  note acc = loopOutcome_Success [OF ok]
  have "dataRows src = acceptedRows (length h) rest"
    using acc fieldsOf_map_Fields [of "acceptedRows (length h) rest"] by (simp add: dataRows_def shape)
  then show ?thesis using shape ok acc by simp
qed

lemma Import_cases:
  "(Import fs c URI = (Failed (OpenError URI), c) \<and> fs URI = None)
   \<or> (Import fs c URI = (Failed (HeaderEOF URI), c) \<and> fs URI = Some [])
   \<or> (\<exists>rest. Import fs c URI = (Failed (ParseError URI), c) \<and> fs URI = Some (Malformed # rest))
   \<or> (\<exists>h rest. fs URI = Some (Fields h # rest))"
proof (cases "fs URI")
  case None
  then show ?thesis by (simp add: Import_open_fails)
next
  case (Some src)
  then show ?thesis
    by (cases src rule: fieldsOf.cases)
       (simp_all add: Import_empty_file Import_bad_header)
qed

text \<open>One record never narrows a field type.\<close>

lemma switchFieldType_strictness:
  "strictness t \<le> strictness (switchFieldType t v)"
  by (simp add: switchFieldType_widen widen_def)

lemma importRecord_widens:
  "j < length types \<Longrightarrow> strictness (types ! j) \<le> strictness (fst (importRecord types k row) ! j)"
proof (induction row arbitrary: types k)
  case Nil
  show ?case by simp
next
  case (Cons v rest)
  show ?case
  proof (cases "k < length types")
    case True
    let ?types' = "types[k := switchFieldType (types ! k) v]"
    have "strictness (types ! j) \<le> strictness (?types' ! j)"
      using True Cons.prems by (cases "j = k") (simp_all add: switchFieldType_strictness)
    also have "\<dots> \<le> strictness (fst (importRecord ?types' (Suc k) rest) ! j)"
      using Cons.prems by (intro Cons.IH) simp
    finally show ?thesis using True by simp
  next
    case False
    then show ?thesis by simp
  qed
qed

lemma strictness_String: "3 \<le> strictness t \<longleftrightarrow> t = FieldTypeString"
  by (cases t) simp_all

section \<open>Properties of Import\<close>

text \<open>
  C1. After a successful Import, the type of every field \<open>j\<close> is the fold of \<open>widen\<close>
  over the probes of the cells of column \<open>j\<close>, starting from Integer; every cell of the
  column probes at most as strict as that type, and no other type among Integer, Float
  and String with this property is less strict.
\<close>

theorem final_type_is_join_of_probes:
  assumes "fs URI = Some src"
    and "Import fs c URI = (Success, c')"
    and "j < length (FieldNames c')"
  shows "FieldTypes c' ! j =
           foldl widen FieldTypeInteger (map inferProbableTypeFromString (column j (dataRows src)))
         \<and> (\<forall>v\<in>set (column j (dataRows src)).
               strictness (inferProbableTypeFromString v) \<le> strictness (FieldTypes c' ! j))
         \<and> (\<forall>T. T \<noteq> FieldTypeUnknown
                 \<and> (\<forall>v\<in>set (column j (dataRows src)).
                       strictness (inferProbableTypeFromString v) \<le> strictness T)
               \<longrightarrow> strictness (FieldTypes c' ! j) \<le> strictness T)"
proof -
  from assms(1,2) obtain h rest where shape: "src = Fields h # rest"
    by (cases src rule: fieldsOf.cases)
       (auto simp: Import_open_fails Import_empty_file Import_bad_header)
  let ?n = "length h"
  let ?rows = "acceptedRows ?n rest"
  let ?ps = "map inferProbableTypeFromString (column j ?rows)"
  note imp = Import_header [of fs URI h rest c, unfolded shape [symmetric], OF assms(1)]
  from imp assms(2) have ok: "loopOutcome URI ?n rest = Success"
    and c': "c' = c\<lparr>FieldNames := h,
              FieldTypes := foldl (map2 switchFieldType) (replicate ?n FieldTypeInteger) ?rows,
              FieldData := FieldData c @ ?rows\<rparr>"
    by simp_all
  from c' assms(3) have j: "j < ?n" by simp
  have rows: "dataRows src = ?rows"
    using loopOutcome_Success [OF ok] fieldsOf_map_Fields [of ?rows] by (simp add: dataRows_def shape)
  have len: "\<forall>row\<in>set ?rows. length row = length (replicate ?n FieldTypeInteger)"
    by (simp add: acceptedRows_length)
  have "FieldTypes c' ! j = foldl switchFieldType (replicate ?n FieldTypeInteger ! j) (column j ?rows)"
    unfolding c' using foldl_map2_nth [OF len] j by simp
  then have T: "FieldTypes c' ! j = foldl widen FieldTypeInteger ?ps"
    using j by (simp add: foldl_switch_widen)
  have upper: "\<forall>p\<in>set ?ps. strictness p \<le> strictness (FieldTypes c' ! j)"
    unfolding T using foldl_widen_upper [of FieldTypeInteger ?ps] by blast
  have least: "strictness (FieldTypes c' ! j) \<le> strictness T'"
    if "T' \<noteq> FieldTypeUnknown" and "\<forall>p\<in>set ?ps. strictness p \<le> strictness T'" for T'
  proof -
    from foldl_widen_mem [of FieldTypeInteger ?ps]
    consider "FieldTypes c' ! j = FieldTypeInteger" | "FieldTypes c' ! j \<in> set ?ps"
      unfolding T by blast
    then show ?thesis
    proof cases
      case 1
      then show ?thesis using that(1) by (cases T') simp_all
    next
      case 2
      then show ?thesis using that(2) by blast
    qed
  qed
  show ?thesis using T upper least by (simp add: rows)
qed

theorem final_type_is_join_of_probes_witness:
  "exampleFS ''sales.csv'' =
     Some [Fields [''id'', ''price'', ''name''], Fields [''1'', ''9.99'', ''apple''],
           Fields [''2'', ''10'', ''banana'']]
   \<and> fst (Import exampleFS New ''sales.csv'') = Success
   \<and> FieldTypes (snd (Import exampleFS New ''sales.csv'')) ! 1 = FieldTypeFloat
   \<and> foldl widen FieldTypeInteger (map inferProbableTypeFromString [''9.99'', ''10''])
       = FieldTypeFloat"
proof -
  let ?src = "[Fields [''id'', ''price'', ''name''], Fields [''1'', ''9.99'', ''apple''],
           Fields [''2'', ''10'', ''banana'']]"
  let ?c' = "\<lparr>FieldNames = [''id'', ''price'', ''name''],
                FieldTypes = [FieldTypeInteger, FieldTypeFloat, FieldTypeString],
                FieldData = [[''1'', ''9.99'', ''apple''], [''2'', ''10'', ''banana'']]\<rparr>"
  have src: "exampleFS ''sales.csv'' = Some ?src" by (simp add: exampleFS_def)
  have j: "(1::nat) < length (FieldNames ?c')" by simp
  have col: "column 1 (dataRows ?src) = [''9.99'', ''10'']"
    by (simp add: column_def dataRows_def)
  from final_type_is_join_of_probes [OF src run_sales j] col src run_sales
  show ?thesis by (simp add: probe_examples widen_def)
qed

text \<open>
  C2. The row loop of Import only widens: from whatever state \<open>c\<close> the loop continues
  (every state reached while Import runs is such a state), and whatever records are still
  to be read, the number of field types stays the same, no field type is less strict at
  the end than it is in \<open>c\<close>, and a field that is String in \<open>c\<close> is String at the end.
\<close>

theorem field_types_only_widen:
  assumes "importRows URI r c = (out, c')"
  shows "length (FieldTypes c') = length (FieldTypes c)
         \<and> (\<forall>j<length (FieldTypes c).
               strictness (FieldTypes c ! j) \<le> strictness (FieldTypes c' ! j)
               \<and> (FieldTypes c ! j = FieldTypeString \<longrightarrow> FieldTypes c' ! j = FieldTypeString))"
proof -
  have main: "length (FieldTypes c') = length (FieldTypes c)
         \<and> (\<forall>j<length (FieldTypes c). strictness (FieldTypes c ! j) \<le> strictness (FieldTypes c' ! j))"
    using assms
  proof (induction URI r c arbitrary: out c' rule: importRows.induct)
    case (1 URI r c)
    obtain res r' where rd: "Read r = (res, r')" by (cases "Read r")
    show ?case
    proof (cases res)
      case EOF
      with rd "1.prems" show ?thesis by (subst (asm) importRows.simps) simp
    next
      case ReadError
      with rd "1.prems" show ?thesis by (subst (asm) importRows.simps) simp
    next
      case (Record row)
      obtain types ok where ir: "importRecord (FieldTypes c) 0 row = (types, ok)"
        by (cases "importRecord (FieldTypes c) 0 row")
      have len: "length types = length (FieldTypes c)"
        using importRecord_length [of "FieldTypes c" 0 row] ir by simp
      have wid: "\<forall>j<length (FieldTypes c). strictness (FieldTypes c ! j) \<le> strictness (types ! j)"
        using importRecord_widens [of _ "FieldTypes c" 0 row] ir by simp
      show ?thesis
      proof (cases ok)
        case False
        with rd Record ir "1.prems" have "c' = c\<lparr>FieldTypes := types\<rparr>"
          by (subst (asm) importRows.simps) simp
        then show ?thesis using len wid by simp
      next
        case True
        let ?c1 = "c\<lparr>FieldTypes := types, FieldData := FieldData c @ [row]\<rparr>"
        from rd Record ir True "1.prems" have "importRows URI r' ?c1 = (out, c')"
          by (subst (asm) importRows.simps) simp
        moreover have "(Record row, r') = Read r" using rd Record by simp
        moreover have "(types, True) = importRecord (FieldTypes c) 0 row" using ir True by simp
        ultimately

        have "length (FieldTypes c') = length types
          \<and> (\<forall>j<length types. strictness (types ! j) \<le> strictness (FieldTypes c' ! j))"
          using "1.IH" [of "Record row" r' row types True out c'] by simp
        then show ?thesis using len wid by (auto intro: order_trans)
      qed
    qed
  qed
  show ?thesis
  proof (intro conjI allI impI)
    show "length (FieldTypes c') = length (FieldTypes c)" using main by simp
  next
    fix j assume "j < length (FieldTypes c)"
    then show "strictness (FieldTypes c ! j) \<le> strictness (FieldTypes c' ! j)" using main by simp
  next
    fix j assume j: "j < length (FieldTypes c)" and s: "FieldTypes c ! j = FieldTypeString"
    from main j have "strictness (FieldTypes c ! j) \<le> strictness (FieldTypes c' ! j)" by simp
    with s show "FieldTypes c' ! j = FieldTypeString" by (simp add: strictness_String)
  qed
qed

theorem field_types_only_widen_witness:
  "importRows ''f'' \<lparr>pending = [Fields [''1'', ''9.99'']], FieldsPerRecord = 2\<rparr>
     \<lparr>FieldNames = [''a'', ''b''], FieldTypes = [FieldTypeString, FieldTypeInteger], FieldData = []\<rparr>
   = (Success, \<lparr>FieldNames = [''a'', ''b''], FieldTypes = [FieldTypeString, FieldTypeFloat],
                 FieldData = [[''1'', ''9.99'']]\<rparr>)
   \<and> strictness FieldTypeInteger \<le> strictness FieldTypeFloat"
  using field_types_only_widen [OF run_loop] run_loop by simp

text \<open>
  C3. When the first record that fails is a malformed data row, Import returns a parse
  error that names the resource, and the row store holds what it held before followed by
  exactly the rows read before the failing one; for a cache made by \<open>New\<close>, exactly
  those rows.
\<close>

theorem malformed_row_keeps_earlier_rows:
  assumes "fs URI = Some (Fields h # map Fields rows @ Malformed # rest)"
    and "\<forall>row\<in>set rows. length row = length h"
  shows "fst (Import fs c URI) = Failed (ParseError URI)
         \<and> FieldData (snd (Import fs c URI)) = FieldData c @ rows
         \<and> FieldData (snd (Import fs New URI)) = rows"
  using assms(2)
    Import_header [of fs URI h "map Fields rows @ Malformed # rest" c, OF assms(1)]
    Import_header [of fs URI h "map Fields rows @ Malformed # rest" New, OF assms(1)]
  by (simp add: acceptedRows_map_Fields loopOutcome_map_Fields New_def)

theorem malformed_row_keeps_earlier_rows_witness:
  "exampleFS ''broken.csv'' =
     Some (Fields [''a'', ''b''] # map Fields [[''1'', ''2''], [''3'', ''x'']] @ Malformed # [Fields [''5'', ''6'']])
   \<and> fst (Import exampleFS New ''broken.csv'') = Failed (ParseError ''broken.csv'')
   \<and> FieldData (snd (Import exampleFS New ''broken.csv'')) = [[''1'', ''2''], [''3'', ''x'']]"
proof -
  have src: "exampleFS ''broken.csv'' =
     Some (Fields [''a'', ''b''] # map Fields [[''1'', ''2''], [''3'', ''x'']] @ Malformed # [Fields [''5'', ''6'']])"
    by (simp add: exampleFS_def)
  have len: "\<forall>row\<in>set [[''1'', ''2''], [''3'', ''x'']]. length row = length [''a'', ''b'']"
    by simp
  from malformed_row_keeps_earlier_rows
         [of exampleFS "''broken.csv''" "[''a'', ''b'']" "[[''1'', ''2''], [''3'', ''x'']]"
             "[Fields [''5'', ''6'']]" New, OF src len] src
  show ?thesis by (simp add: New_def)
qed

text \<open>
  C4. When the resource cannot be opened, or the input ends before a header is read,
  Import returns the open error or the end-of-input error and the cache it returns is
  the cache it was given; for a cache made by \<open>New\<close>, field names, field types and rows
  are all still empty.
\<close>

theorem early_failure_leaves_cache_untouched:
  assumes "fs URI = None \<or> fs URI = Some []"
  shows "Import fs c URI = (Failed (if fs URI = None then OpenError URI else HeaderEOF URI), c)
         \<and> FieldNames (snd (Import fs New URI)) = []
         \<and> FieldTypes (snd (Import fs New URI)) = []
         \<and> FieldData (snd (Import fs New URI)) = []"
  using assms by (auto simp: Import_open_fails Import_empty_file New_def)

theorem early_failure_leaves_cache_untouched_witness:
  "exampleFS ''missing.csv'' = None
   \<and> Import exampleFS New ''missing.csv'' = (Failed (OpenError ''missing.csv''), New)
   \<and> exampleFS ''empty.csv'' = Some []
   \<and> Import exampleFS New ''empty.csv'' = (Failed (HeaderEOF ''empty.csv''), New)"
proof -
  have a: "exampleFS ''missing.csv'' = None" by (simp add: exampleFS_def)
  have b: "exampleFS ''empty.csv'' = Some []" by (simp add: exampleFS_def)
  from early_failure_leaves_cache_untouched [of exampleFS "''missing.csv''" New]
       early_failure_leaves_cache_untouched [of exampleFS "''empty.csv''" New] a b
  show ?thesis by simp
qed

text \<open>
  C5. After a successful Import the rows appended are the data rows of the source, whose
  number is the number of records minus the header; a cache made by \<open>New\<close> then holds
  exactly that many rows.
\<close>

theorem row_count_after_success:
  assumes "fs URI = Some src" and "Import fs c URI = (Success, c')"
  shows "FieldData c' = FieldData c @ dataRows src
         \<and> length (dataRows src) = length src - 1
         \<and> length (FieldData c') = length (FieldData c) + (length src - 1)
         \<and> (c = New \<longrightarrow> length (FieldData c') = length src - 1)"
proof -
  from Import_Success_shape [OF assms] obtain h rest where
    shape: "src = Fields h # rest" and acc: "map Fields (acceptedRows (length h) rest) = rest"
    and rows: "dataRows src = acceptedRows (length h) rest"
    by blast
  from Import_header [of fs URI h rest c] assms shape
  have data: "FieldData c' = FieldData c @ acceptedRows (length h) rest" by auto
  have "length (acceptedRows (length h) rest) = length rest"
    using acc by (metis length_map)
  then show ?thesis using data rows shape by (simp add: New_def)
qed

theorem row_count_after_success_witness:
  "fst (Import exampleFS New ''sales.csv'') = Success
   \<and> length (FieldData (snd (Import exampleFS New ''sales.csv''))) = 2
   \<and> exampleFS ''sales.csv'' =
       Some [Fields [''id'', ''price'', ''name''], Fields [''1'', ''9.99'', ''apple''],
             Fields [''2'', ''10'', ''banana'']]"
proof -
  have src: "exampleFS ''sales.csv'' =
       Some [Fields [''id'', ''price'', ''name''], Fields [''1'', ''9.99'', ''apple''],
             Fields [''2'', ''10'', ''banana'']]"
    by (simp add: exampleFS_def)
  from row_count_after_success [of exampleFS "''sales.csv''" _ New, OF src run_sales] src run_sales
  show ?thesis by simp
qed

text \<open>
  C6. On a source that has a header and no data row, Import succeeds and every field
  type is Integer, the seed.
\<close>

theorem header_only_gives_Integer:
  assumes "fs URI = Some [Fields h]"
  shows "fst (Import fs c URI) = Success
         \<and> FieldNames (snd (Import fs c URI)) = h
         \<and> FieldTypes (snd (Import fs c URI)) = replicate (length h) FieldTypeInteger
         \<and> (\<forall>t\<in>set (FieldTypes (snd (Import fs c URI))). t = FieldTypeInteger)
         \<and> FieldData (snd (Import fs c URI)) = FieldData c"
  using Import_header [of fs URI h "[]" c, OF assms] by simp

theorem header_only_gives_Integer_witness:
  "exampleFS ''header.csv'' = Some [Fields [''a'']]
   \<and> fst (Import exampleFS New ''header.csv'') = Success
   \<and> FieldTypes (snd (Import exampleFS New ''header.csv'')) = [FieldTypeInteger]"
proof -
  have src: "exampleFS ''header.csv'' = Some [Fields [''a'']]" by (simp add: exampleFS_def)
  from header_only_gives_Integer [of exampleFS "''header.csv''" "[''a'']" New, OF src] src
  show ?thesis by simp
qed

text \<open>
  C8, as amended. After any Import call, whatever its outcome, on a cache with as many
  field types as field names: there are as many field types as field names, the row
  store is the old store followed by the rows this call appended, and each of these has
  the length of the field names. For a cache made by \<open>New\<close> the whole invariant holds.
\<close>

theorem rows_appended_match_header:
  assumes "Import fs c URI = (out, c')"
    and "length (FieldNames c) = length (FieldTypes c)"
  shows "length (FieldNames c') = length (FieldTypes c')
         \<and> (\<exists>new. FieldData c' = FieldData c @ new
                  \<and> (\<forall>row\<in>set new. length row = length (FieldNames c')))
         \<and> (c = New \<longrightarrow> cacheInvariant c')"
proof -
  have core: "length (FieldNames c') = length (FieldTypes c')
         \<and> (\<exists>new. FieldData c' = FieldData c @ new
                  \<and> (\<forall>row\<in>set new. length row = length (FieldNames c')))"
  proof -
    from Import_cases [of fs c URI] consider
      (unchanged) "c' = c" | (header) h rest where "fs URI = Some (Fields h # rest)"
      using assms(1) by auto
    then show ?thesis
    proof cases
      case unchanged
      then show ?thesis using assms(2) by simp
    next
      case header
      let ?rows = "acceptedRows (length h) rest"
      from Import_header [of fs URI h rest c, OF header] assms(1)
      have c': "c' = c\<lparr>FieldNames := h,
              FieldTypes := foldl (map2 switchFieldType) (replicate (length h) FieldTypeInteger) ?rows,
              FieldData := FieldData c @ ?rows\<rparr>"
        by simp
      have "length (foldl (map2 switchFieldType) (replicate (length h) FieldTypeInteger) ?rows)
            = length (replicate (length h) FieldTypeInteger)"
        by (rule foldl_map2_length) (simp add: acceptedRows_length)
      then have "length (FieldNames c') = length (FieldTypes c')" by (simp add: c')
      moreover have "FieldData c' = FieldData c @ ?rows" by (simp add: c')
      moreover have "\<forall>row\<in>set ?rows. length row = length (FieldNames c')"
        by (simp add: c' acceptedRows_length)
      ultimately show ?thesis by blast
    qed
  qed
  moreover have "cacheInvariant c'" if "c = New"
    using core that by (auto simp: cacheInvariant_def New_def list_all_iff)
  ultimately show ?thesis by blast
qed

theorem rows_appended_match_header_witness:
  "Import exampleFS New ''broken.csv'' =
     (Failed (ParseError ''broken.csv''),
      \<lparr>FieldNames = [''a'', ''b''],
       FieldTypes = [FieldTypeInteger, FieldTypeString],
       FieldData = [[''1'', ''2''], [''3'', ''x'']]\<rparr>)
   \<and> length (FieldNames New) = length (FieldTypes New)
   \<and> cacheInvariant (snd (Import exampleFS New ''broken.csv''))"
proof -
  have len: "length (FieldNames New) = length (FieldTypes New)" by (simp add: New_def)
  from rows_appended_match_header [OF run_broken len] run_broken len show ?thesis by simp
qed

text \<open>
  C8 as stated fails after a second Import: importing a three-column file and then a
  one-column file into the same cache succeeds twice and leaves rows of three cells under
  a single field name.
\<close>

theorem invariant_broken_by_second_import:
  "fst (Import exampleFS New ''sales.csv'') = Success
   \<and> cacheInvariant (snd (Import exampleFS New ''sales.csv''))
   \<and> fst (Import exampleFS (snd (Import exampleFS New ''sales.csv'')) ''one.csv'') = Success
   \<and> \<not> cacheInvariant (snd (Import exampleFS (snd (Import exampleFS New ''sales.csv'')) ''one.csv''))"
  by (simp add: run_sales run_one_after_sales cacheInvariant_def)

text \<open>
  C10. A second successful Import on the same cache keeps the rows of the first file and
  appends those of the second; field names and field types are those of the second file
  alone, the same as if it had been imported into a new cache.
\<close>

theorem second_import_appends:
  assumes "fs u1 = Some src1" and "Import fs New u1 = (Success, c1)"
    and "fs u2 = Some src2" and "Import fs c1 u2 = (Success, c2)"
  shows "FieldData c1 = dataRows src1
         \<and> FieldData c2 = dataRows src1 @ dataRows src2
         \<and> src2 = Fields (FieldNames c2) # map Fields (dataRows src2)
         \<and> FieldNames c2 = FieldNames (snd (Import fs New u2))
         \<and> FieldTypes c2 = FieldTypes (snd (Import fs New u2))"
proof -
  from Import_Success_shape [OF assms(1,2)] obtain h1 rest1 where
    s1: "src1 = Fields h1 # rest1" and r1: "dataRows src1 = acceptedRows (length h1) rest1"
    by blast
  from Import_Success_shape [OF assms(3,4)] obtain h2 rest2 where
    s2: "src2 = Fields h2 # rest2" and r2: "dataRows src2 = acceptedRows (length h2) rest2"
    and a2: "map Fields (acceptedRows (length h2) rest2) = rest2"
    by blast
  from Import_header [of fs u1 h1 rest1 New] assms(1,2) s1 r1
  have d1: "FieldData c1 = dataRows src1" by (auto simp: New_def)
  from Import_header [of fs u2 h2 rest2 c1] assms(3,4) s2
  have c2: "c2 = c1\<lparr>FieldNames := h2,
              FieldTypes := foldl (map2 switchFieldType) (replicate (length h2) FieldTypeInteger)
                              (acceptedRows (length h2) rest2),
              FieldData := FieldData c1 @ acceptedRows (length h2) rest2\<rparr>"
    by simp
  from Import_header [of fs u2 h2 rest2 New] assms(3) s2
  have fresh: "snd (Import fs New u2) = New\<lparr>FieldNames := h2,
              FieldTypes := foldl (map2 switchFieldType) (replicate (length h2) FieldTypeInteger)
                              (acceptedRows (length h2) rest2),
              FieldData := FieldData New @ acceptedRows (length h2) rest2\<rparr>"
    by simp
  show ?thesis using d1 r2 a2 s2 by (simp add: c2 fresh)
qed

theorem second_import_appends_witness:
  "Import exampleFS New ''sales.csv'' =
     (Success, \<lparr>FieldNames = [''id'', ''price'', ''name''],
                FieldTypes = [FieldTypeInteger, FieldTypeFloat, FieldTypeString],
                FieldData = [[''1'', ''9.99'', ''apple''], [''2'', ''10'', ''banana'']]\<rparr>)
   \<and> Import exampleFS
         \<lparr>FieldNames = [''id'', ''price'', ''name''],
          FieldTypes = [FieldTypeInteger, FieldTypeFloat, FieldTypeString],
          FieldData = [[''1'', ''9.99'', ''apple''], [''2'', ''10'', ''banana'']]\<rparr> ''one.csv'' =
     (Success, \<lparr>FieldNames = [''x''], FieldTypes = [FieldTypeInteger],
                FieldData = [[''1'', ''9.99'', ''apple''], [''2'', ''10'', ''banana''], [''5'']]\<rparr>)"
proof -
  let ?c1 = "\<lparr>FieldNames = [''id'', ''price'', ''name''],
          FieldTypes = [FieldTypeInteger, FieldTypeFloat, FieldTypeString],
          FieldData = [[''1'', ''9.99'', ''apple''], [''2'', ''10'', ''banana'']]\<rparr>"
  have s1: "exampleFS ''sales.csv'' =
       Some [Fields [''id'', ''price'', ''name''], Fields [''1'', ''9.99'', ''apple''],
             Fields [''2'', ''10'', ''banana'']]"
    by (simp add: exampleFS_def)
  have s2: "exampleFS ''one.csv'' = Some [Fields [''x''], Fields [''5'']]"
    by (simp add: exampleFS_def)
  have run2: "Import exampleFS ?c1 ''one.csv'' =
     (Success, \<lparr>FieldNames = [''x''], FieldTypes = [FieldTypeInteger],
                FieldData = [[''1'', ''9.99'', ''apple''], [''2'', ''10'', ''banana''], [''5'']]\<rparr>)"
    by (rule run_one_after_sales)
  from second_import_appends [of exampleFS "''sales.csv''" _ ?c1 "''one.csv''" _ _, OF s1 run_sales s2 run2]
    run_sales run2
  show ?thesis by simp
qed

end
